theory Spec2Isabelle
  imports Main "HOL-Library.Word"
begin

section \<open>The StreamReader of plugkit/js/stream_reader.js\<close>

text \<open>
  A \<open>StreamReader\<close> keeps the list of the \<open>Uint8Array\<close> slices added to it and the sum of
  their lengths, and offers \<open>read\<close> and \<open>search\<close> over the logical concatenation.

  JavaScript values are modelled by the shapes the methods distinguish. \<open>Num n\<close> is a
  Number for which \<open>Number.isInteger\<close> holds, with the mathematical value \<open>n\<close> (index
  arithmetic is exact for Numbers in the safe-integer range, which every length and
  offset of a stream held in memory is in); \<open>Other\<close> stands for every value that is
  none of the others: a fractional Number, \<open>NaN\<close>, a string, \<open>null\<close>, a plain object.
  \<open>Payload vs\<close> is an object whose constructor is named \<open>Payload\<close> and whose \<open>slices\<close>
  property is an array holding the values \<open>vs\<close>. \<open>Bare_object\<close> is an object that has no
  \<open>constructor\<close> property (\<open>Object.create(null)\<close>): reading \<open>payload.constructor.name\<close> on
  it throws before \<open>addPayload\<close> reaches its own \<open>throw\<close>.
\<close>

type_synonym byte = "8 word"

datatype jsval =
    Undefined
  | Num int
  | Uint8Array "byte list"
  | Payload "jsval list"
  | Bare_object
  | Other

text \<open>
  \<open>TypeError m\<close> is a \<open>throw new TypeError(m)\<close> of the source. \<open>Engine_TypeError\<close> and
  \<open>Engine_RangeError\<close> are the errors the runtime raises by itself: a property read on
  \<open>undefined\<close> or \<open>null\<close>, a typed-array \<open>set\<close> from \<open>undefined\<close>, a \<open>set\<close> whose source
  does not fit, a typed array of negative length.
\<close>

datatype error = TypeError string | Engine_TypeError | Engine_RangeError

record StreamReader =
  fields_length :: int
  fields_slices :: "byte list list"

definition new_StreamReader :: StreamReader where
  "new_StreamReader = \<lparr>fields_length = 0, fields_slices = []\<rparr>"

definition get_length :: "StreamReader \<Rightarrow> int" where
  "get_length s = fields_length s"

subsection \<open>addSlice and addPayload\<close>

text \<open>
  A mutator returns the exception it threw, if any, together with the state it left
  behind: an exception does not undo the assignments made before it.
\<close>

fun addSlice :: "jsval \<Rightarrow> StreamReader \<Rightarrow> error option \<times> StreamReader" where
  "addSlice (Uint8Array slc) s =
     (None, s\<lparr>fields_length := fields_length s + int (length slc),
              fields_slices := fields_slices s @ [slc]\<rparr>)"
| "addSlice _ s = (Some (TypeError ''First argument must be an Uint8Array''), s)"

text \<open>The \<open>for (const slice of payload.slices)\<close> loop of \<open>addPayload\<close>.\<close>

fun addPayload_loop :: "jsval list \<Rightarrow> StreamReader \<Rightarrow> error option \<times> StreamReader" where
  "addPayload_loop [] s = (None, s)"
| "addPayload_loop (slc # rest) s =
     (case addSlice slc s of
        (Some e, s') \<Rightarrow> (Some e, s')
      | (None, s') \<Rightarrow> addPayload_loop rest s')"

fun addPayload :: "jsval \<Rightarrow> StreamReader \<Rightarrow> error option \<times> StreamReader" where
  "addPayload (Payload vs) s = addPayload_loop vs s"
| "addPayload Bare_object s = (Some Engine_TypeError, s)"
| "addPayload _ s = (Some (TypeError ''First argument must be an Uint8Array''), s)"

subsection \<open>Typed-array primitives\<close>

text \<open>\<open>a[i]\<close> on a \<open>Uint8Array\<close>: \<open>undefined\<close> (\<open>None\<close>) outside \<open>0 .. a.length - 1\<close>.\<close>

definition elem :: "byte list \<Rightarrow> int \<Rightarrow> byte option" where
  "elem a i = (if 0 \<le> i \<and> i < int (length a) then Some (a ! nat i) else None)"

text \<open>
  The index clamping of \<open>TypedArray.prototype.slice\<close>: a negative index counts from the
  end, and the result is clamped to \<open>0 .. len\<close>.
\<close>

definition relative_index :: "int \<Rightarrow> nat \<Rightarrow> nat" where
  "relative_index k len =
     (if k < 0 then nat (max (int len + k) 0) else nat (min k (int len)))"

text \<open>\<open>a.slice(start, final)\<close> and \<open>a.slice(start)\<close>.\<close>

definition slice2 :: "byte list \<Rightarrow> int \<Rightarrow> int \<Rightarrow> byte list" where
  "slice2 a start final =
     (let k = relative_index start (length a);
          fin = relative_index final (length a)
      in take (fin - k) (drop k a))"

definition slice1 :: "byte list \<Rightarrow> int \<Rightarrow> byte list" where
  "slice1 a start = drop (relative_index start (length a)) a"

text \<open>
  \<open>data.set(src, dst)\<close>: a \<open>RangeError\<close> when the source does not fit at \<open>dst\<close>, otherwise
  the bytes of \<open>src\<close> overwrite \<open>data[dst .. dst + src.length - 1]\<close>.
\<close>

definition typed_array_set :: "byte list \<Rightarrow> byte list \<Rightarrow> int \<Rightarrow> error + byte list" where
  "typed_array_set data src dst =
     (if dst < 0 \<or> int (length data) < dst + int (length src) then Inl Engine_RangeError
      else Inr (take (nat dst) data @ src @ drop (nat dst + length src) data))"

text \<open>A default parameter \<open>x = d\<close>: the default replaces \<open>undefined\<close> only.\<close>

fun default_arg :: "jsval \<Rightarrow> jsval \<Rightarrow> jsval" where
  "default_arg Undefined d = d"
| "default_arg v d = v"

subsection \<open>read\<close>

text \<open>
  \<open>for (; begin < slices.length && (beginOffset += slices[begin].length) <= offset; ++begin);\<close>
  The addition happens before the comparison, also in the iteration that leaves the loop.
\<close>

function begin_loop :: "byte list list \<Rightarrow> int \<Rightarrow> nat \<Rightarrow> int \<Rightarrow> nat \<times> int" where
  "begin_loop slices offset begin_i beginOffset =
     (if begin_i < length slices then
        (let beginOffset' = beginOffset + int (length (slices ! begin_i)) in
         if beginOffset' \<le> offset then begin_loop slices offset (begin_i + 1) beginOffset'
         else (begin_i, beginOffset'))
      else (begin_i, beginOffset))"
  by pat_completeness auto
termination
  by (relation "measure (\<lambda>(slices, offset, begin_i, beginOffset). length slices - begin_i)") auto

text \<open>
  \<open>for (; end < slices.length && (endOffset += slices[end].length) < offset + length; ++end);\<close>
  with \<open>limit = offset + length\<close>.
\<close>

function end_loop :: "byte list list \<Rightarrow> int \<Rightarrow> nat \<Rightarrow> int \<Rightarrow> nat \<times> int" where
  "end_loop slices limit end_i endOffset =
     (if end_i < length slices then
        (let endOffset' = endOffset + int (length (slices ! end_i)) in
         if endOffset' < limit then end_loop slices limit (end_i + 1) endOffset'
         else (end_i, endOffset'))
      else (end_i, endOffset))"
  by pat_completeness auto
termination
  by (relation "measure (\<lambda>(slices, limit, end_i, endOffset). length slices - end_i)") auto

text \<open>
  \<open>for (let i = begin; i <= end; ++i)\<close>: every slice from \<open>begin\<close> to \<open>end\<close> is copied
  whole (the first one from \<open>offset - beginOffset\<close> on). \<open>slices[i]\<close> is \<open>undefined\<close> when
  \<open>i = slices.length\<close>, and \<open>data.set(undefined, dst)\<close> throws.
\<close>

function copy_loop ::
  "byte list list \<Rightarrow> int \<Rightarrow> nat \<Rightarrow> int \<Rightarrow> nat \<Rightarrow> nat \<Rightarrow> byte list \<Rightarrow> int \<Rightarrow> error + byte list"
where
  "copy_loop slices offset begin_i beginOffset end_i i data dst =
     (if i \<le> end_i then
        (if i < length slices then
           (let slc = slices ! i;
                slc = (if i = begin_i then slice1 slc (offset - beginOffset) else slc)
            in case typed_array_set data slc dst of
                 Inl e \<Rightarrow> Inl e
               | Inr data' \<Rightarrow>
                   copy_loop slices offset begin_i beginOffset end_i (i + 1) data'
                     (dst + int (length slc)))
         else Inl Engine_TypeError)
      else Inr data)"
  by pat_completeness auto
termination
  by (relation "measure (\<lambda>(slices, offset, begin_i, beginOffset, end_i, i, data, dst). end_i + 1 - i)")
     auto

text \<open>
  The body of \<open>read\<close> after the argument checks. \<open>None\<close> is the \<open>null\<close> result. When the
  first loop leaves \<open>beginOffset > offset\<close> on an empty slice list (a negative offset),
  \<open>slices[begin]\<close> is \<open>undefined\<close> and reading its \<open>length\<close> throws.
\<close>

definition read_slices :: "byte list list \<Rightarrow> int \<Rightarrow> int \<Rightarrow> error + byte list option" where
  "read_slices slices len offset =
     (let (begin_i, beginOffset) = begin_loop slices offset 0 0 in
      if beginOffset \<le> offset then Inr None
      else if \<not> begin_i < length slices then Inl Engine_TypeError
      else
        let beginOffset = beginOffset - int (length (slices ! begin_i));
            (end_i, endOffset) = end_loop slices (offset + len) begin_i beginOffset;
            buflen = min len (endOffset - beginOffset);
            sliceOffset = offset - beginOffset
        in if sliceOffset + buflen \<le> int (length (slices ! begin_i)) then
             Inr (Some (slice2 (slices ! begin_i) sliceOffset (sliceOffset + buflen)))
           else if buflen < 0 then Inl Engine_RangeError
           else
             (case copy_loop slices offset begin_i beginOffset end_i begin_i
                     (replicate (nat buflen) 0) 0 of
                Inl e \<Rightarrow> Inl e
              | Inr data \<Rightarrow> Inr (Some data)))"

definition read :: "StreamReader \<Rightarrow> jsval \<Rightarrow> jsval \<Rightarrow> error + byte list option" where
  "read s len offset =
     (case len of
        Num len \<Rightarrow>
          (case default_arg offset (Num 0) of
             Num offset \<Rightarrow> read_slices (fields_slices s) len offset
           | _ \<Rightarrow> Inl (TypeError ''Second argument must be an integer''))
      | _ \<Rightarrow> Inl (TypeError ''First argument must be an integer''))"

subsection \<open>search\<close>

text \<open>
  The confirmation loop \<open>for (let j = 0; j < window.length; ++j)\<close>. Its body compares
  \<open>window[i]\<close> with \<open>slice[i]\<close>, where \<open>i\<close> is the index of the slice in the outer loop;
  the result is the final value of \<open>equal\<close>.
\<close>

function confirm_loop :: "byte list \<Rightarrow> byte list \<Rightarrow> nat \<Rightarrow> nat \<Rightarrow> bool" where
  "confirm_loop window slc i j =
     (if j < length window then
        (if elem window (int i) \<noteq> elem slc (int i) then False
         else confirm_loop window slc i (j + 1))
      else True)"
  by pat_completeness auto
termination
  by (relation "measure (\<lambda>(window, slc, i, j). length window - j)") auto

text \<open>
  The loop over \<open>index\<close> inside one slice. \<open>Inr (Some r)\<close> is \<open>return r\<close>, \<open>Inr None\<close> is
  the loop running to its end. \<open>window\<close> is \<open>null\<close> when \<open>read\<close> finds nothing at the
  position, and \<open>window.length\<close> throws then.
\<close>

function index_loop ::
  "StreamReader \<Rightarrow> byte list \<Rightarrow> int \<Rightarrow> byte list \<Rightarrow> nat \<Rightarrow> int \<Rightarrow> error + int option"
where
  "index_loop s pattern front slc i index =
     (if index < int (length slc) - int (length pattern) + 1 then
        (if elem slc index = elem pattern 0 then
           (case read s (Num (int (length pattern))) (Num (front + index)) of
              Inl e \<Rightarrow> Inl e
            | Inr None \<Rightarrow> Inl Engine_TypeError
            | Inr (Some window) \<Rightarrow>
                if length window = length pattern \<and> confirm_loop window slc i 0
                then Inr (Some (front + index + int (length pattern)))
                else index_loop s pattern front slc i (index + 1))
         else index_loop s pattern front slc i (index + 1))
      else Inr None)"
  by pat_completeness auto
termination
  by (relation "measure (\<lambda>(s, pattern, front, slc, i, index).
        nat (int (length slc) - int (length pattern) + 1 - index))") auto

text \<open>The loop \<open>for (let i = begin; i < slices.length; ++i)\<close>; \<open>front\<close> is never advanced.\<close>

function slice_loop ::
  "StreamReader \<Rightarrow> byte list \<Rightarrow> int \<Rightarrow> nat \<Rightarrow> int \<Rightarrow> int \<Rightarrow> nat \<Rightarrow> error + int"
where
  "slice_loop s pattern offset begin_i beginOffset front i =
     (if i < length (fields_slices s) then
        (let slc = fields_slices s ! i;
             index = (if i = begin_i then offset - beginOffset else 0)
         in case index_loop s pattern front slc i index of
              Inl e \<Rightarrow> Inl e
            | Inr (Some r) \<Rightarrow> Inr r
            | Inr None \<Rightarrow> slice_loop s pattern offset begin_i beginOffset front (i + 1))
      else Inr (- 1))"
  by pat_completeness auto
termination
  by (relation "measure (\<lambda>(s, pattern, offset, begin_i, beginOffset, front, i).
        length (fields_slices s) - i)") auto

declare begin_loop.simps [simp del] end_loop.simps [simp del] copy_loop.simps [simp del]
  confirm_loop.simps [simp del] index_loop.simps [simp del] slice_loop.simps [simp del]

definition search :: "StreamReader \<Rightarrow> jsval \<Rightarrow> jsval \<Rightarrow> error + int" where
  "search s pattern offset =
     (case pattern of
        Uint8Array pattern \<Rightarrow>
          (case default_arg offset (Num 0) of
             Num offset \<Rightarrow>
               if length pattern = 0 then Inr 0
               else
                 let slices = fields_slices s;
                     (begin_i, beginOffset) = begin_loop slices offset 0 0
                 in if beginOffset \<le> offset then Inr (- 1)
                    else if \<not> begin_i < length slices then Inl Engine_TypeError
                    else
                      let beginOffset = beginOffset - int (length (slices ! begin_i));
                          front = beginOffset
                      in slice_loop s pattern offset begin_i beginOffset front begin_i
           | _ \<Rightarrow> Inl (TypeError ''Second argument must be an integer''))
      | _ \<Rightarrow> Inl (TypeError ''First argument must be an Uint8Array''))"

section \<open>Vocabulary of the statements\<close>

text \<open>
  \<open>addSlice_seq [s1, ..., sn] s\<close> is the state after the calls \<open>addSlice(s1); ...; addSlice(sn)\<close>
  on \<open>s\<close>, and \<open>stream_of\<close> is the reader built that way from a new one.
\<close>

fun addSlice_seq :: "byte list list \<Rightarrow> StreamReader \<Rightarrow> StreamReader" where
  "addSlice_seq [] s = s"
| "addSlice_seq (b # bs) s = addSlice_seq bs (snd (addSlice (Uint8Array b) s))"

definition stream_of :: "byte list list \<Rightarrow> StreamReader" where
  "stream_of bs = addSlice_seq bs new_StreamReader"

text \<open>The sum of the lengths of a slice sequence (the total length of the stream).\<close>

definition slices_total :: "byte list list \<Rightarrow> int" where
  "slices_total slices = int (sum_list (map length slices))"

text \<open>
  A script of mutator calls, run until the first exception. \<open>passed c\<close> lists the byte
  slices the call \<open>c\<close> hands over.
\<close>

datatype call = AddSlice jsval | AddPayload jsval

fun perform :: "call \<Rightarrow> StreamReader \<Rightarrow> error option \<times> StreamReader" where
  "perform (AddSlice v) s = addSlice v s"
| "perform (AddPayload v) s = addPayload v s"

fun run_calls :: "call list \<Rightarrow> StreamReader \<Rightarrow> error option \<times> StreamReader" where
  "run_calls [] s = (None, s)"
| "run_calls (c # cs) s =
     (case perform c s of
        (Some e, s') \<Rightarrow> (Some e, s')
      | (None, s') \<Rightarrow> run_calls cs s')"

fun bytes_of :: "jsval \<Rightarrow> byte list list" where
  "bytes_of (Uint8Array b) = [b]"
| "bytes_of _ = []"

fun passed :: "call \<Rightarrow> byte list list" where
  "passed (AddSlice v) = bytes_of v"
| "passed (AddPayload (Payload vs)) = concat (map bytes_of vs)"
| "passed (AddPayload _) = []"

text \<open>The slices of a payload that come before its first value that is not a \<open>Uint8Array\<close>.\<close>

fun leading_slices :: "jsval list \<Rightarrow> byte list list" where
  "leading_slices (Uint8Array b # vs) = b # leading_slices vs"
| "leading_slices _ = []"

text \<open>\<open>Number.isInteger\<close> on the modelled values.\<close>

fun isInteger :: "jsval \<Rightarrow> bool" where
  "isInteger (Num n) = True"
| "isInteger _ = False"

text \<open>
  The position of index \<open>k\<close> of a slice list after one more slice has been inserted at
  index \<open>n\<close>.
\<close>

definition shift_index :: "nat \<Rightarrow> nat \<Rightarrow> nat" where
  "shift_index n k = (if k < n then k else Suc k)"

text \<open>
  The contract of \<open>read\<close> and of \<open>search\<close> (for a non-empty pattern) as the specification
  words it, over the concatenation of the slices: the bytes of
  \<open>[offset, min (offset + length) totalLength)\<close>, or "not available" from \<open>totalLength\<close> on;
  the end of the first occurrence at or after \<open>offset\<close>, or \<open>-1\<close>.
\<close>

definition spec_read :: "byte list \<Rightarrow> nat \<Rightarrow> nat \<Rightarrow> byte list option" where
  "spec_read stream len offset =
     (if length stream \<le> offset then None else Some (take len (drop offset stream)))"

fun occurs_at :: "byte list \<Rightarrow> byte list \<Rightarrow> nat \<Rightarrow> bool" where
  "occurs_at stream pattern p = (take (length pattern) (drop p stream) = pattern)"

definition spec_search :: "byte list \<Rightarrow> byte list \<Rightarrow> nat \<Rightarrow> int" where
  "spec_search stream pattern offset =
     (case find (occurs_at stream pattern) [offset ..< length stream] of
        Some p \<Rightarrow> int p + int (length pattern)
      | None \<Rightarrow> - 1)"

section \<open>The slice store\<close>

lemma slices_total_simps [simp]:
  "slices_total [] = 0"
  "slices_total (b # bs) = int (length b) + slices_total bs"
  "slices_total (xs @ ys) = slices_total xs + slices_total ys"
  by (simp_all add: slices_total_def)

lemma addSlice_seq_fields:
  "fields_slices (addSlice_seq bs s) = fields_slices s @ bs \<and>
   fields_length (addSlice_seq bs s) = fields_length s + slices_total bs"
  by (induction bs arbitrary: s) simp_all

lemma fields_stream_of [simp]:
  "fields_slices (stream_of bs) = bs" "fields_length (stream_of bs) = slices_total bs"
  by (simp_all add: stream_of_def addSlice_seq_fields new_StreamReader_def)

lemma addSlice_ok:
  assumes "addSlice v s = (None, s')"
  shows "fields_slices s' = fields_slices s @ bytes_of v \<and>
         fields_length s' = fields_length s + slices_total (bytes_of v)"
  using assms by (cases v) auto

lemma addPayload_loop_ok:
  "addPayload_loop vs s = (None, s') \<Longrightarrow>
     fields_slices s' = fields_slices s @ concat (map bytes_of vs) \<and>
     fields_length s' = fields_length s + slices_total (concat (map bytes_of vs))"
proof (induction vs arbitrary: s)
  case Nil
  then show ?case by simp
next
  case (Cons v vs)
  obtain r t where vt: "addSlice v s = (r, t)" by (cases "addSlice v s")
  with Cons.prems have r: "r = None" and rest: "addPayload_loop vs t = (None, s')"
    by (auto split: option.splits)
  from addSlice_ok [of v s t] vt r Cons.IH [OF rest] show ?case by simp
qed

lemma perform_ok:
  assumes "perform c s = (None, s')"
  shows "fields_slices s' = fields_slices s @ passed c \<and>
         fields_length s' = fields_length s + slices_total (passed c)"
proof (cases c)
  case (AddSlice v)
  with assms show ?thesis using addSlice_ok [of v s s'] by simp
next
  case (AddPayload v)
  with assms show ?thesis using addPayload_loop_ok [of _ s s'] by (cases v) auto
qed

lemma run_calls_ok:
  "run_calls cs s = (None, s') \<Longrightarrow>
     fields_slices s' = fields_slices s @ concat (map passed cs) \<and>
     fields_length s' = fields_length s + slices_total (concat (map passed cs))"
proof (induction cs arbitrary: s)
  case Nil
  then show ?case by simp
next
  case (Cons c cs)
  obtain r t where ct: "perform c s = (r, t)" by (cases "perform c s")
  with Cons.prems have r: "r = None" and rest: "run_calls cs t = (None, s')"
    by (auto split: option.splits)
  from perform_ok [of c s t] ct r Cons.IH [OF rest] show ?case by simp
qed

text \<open>
  C5. After a sequence of \<open>addSlice\<close> and \<open>addPayload\<close> calls on a new reader that all
  succeed, the stored slices are the slices handed over, in order, and \<open>length\<close> is the sum
  of their lengths, which is the sum of the lengths of the stored slices.
\<close>

theorem length_is_sum_of_appended:
  assumes "run_calls cs new_StreamReader = (None, s)"
  shows "fields_slices s = concat (map passed cs) \<and>
         get_length s = slices_total (concat (map passed cs)) \<and>
         get_length s = slices_total (fields_slices s)"
  using run_calls_ok [OF assms] by (simp add: new_StreamReader_def get_length_def)

theorem length_is_sum_of_appended_witness:
  "run_calls [AddSlice (Uint8Array [1, 2]), AddPayload (Payload [Uint8Array [3], Uint8Array []])]
     new_StreamReader = (None, \<lparr>fields_length = 3, fields_slices = [[1, 2], [3], []]\<rparr>) \<and>
   get_length \<lparr>fields_length = 3, fields_slices = [[1, 2], [3], []]\<rparr> =
     slices_total (fields_slices \<lparr>fields_length = 3, fields_slices = [[1, 2], [3], []]\<rparr>)"
proof -
  have run: "run_calls
      [AddSlice (Uint8Array [1, 2]), AddPayload (Payload [Uint8Array [3], Uint8Array []])]
      new_StreamReader = (None, \<lparr>fields_length = 3, fields_slices = [[1, 2], [3], []]\<rparr>)"
    by (simp add: new_StreamReader_def)
  from length_is_sum_of_appended [OF run] run show ?thesis by simp
qed

lemma addPayload_loop_valid:
  "addPayload_loop (map Uint8Array bs) s = (None, addSlice_seq bs s)"
  by (induction bs arbitrary: s) simp_all

text \<open>
  C7. \<open>addPayload\<close> of a payload whose slices \<open>s1, ..., sn\<close> are all \<open>Uint8Array\<close>s succeeds
  and leaves the state that \<open>addSlice(s1); ...; addSlice(sn)\<close> leaves.
\<close>

theorem addPayload_is_addSlice_seq:
  "addPayload (Payload (map Uint8Array bs)) s = (None, addSlice_seq bs s)"
  by (simp add: addPayload_loop_valid)

lemma addPayload_loop_fail:
  "addPayload_loop vs s = (Some e, s') \<Longrightarrow> s' = addSlice_seq (leading_slices vs) s"
proof (induction vs arbitrary: s)
  case Nil
  then show ?case by simp
next
  case (Cons v vs)
  then show ?case by (cases v) (auto split: option.splits)
qed

text \<open>
  C8, as amended. A failing \<open>addSlice\<close> leaves the state as it was, and so does an
  \<open>addPayload\<close> whose argument is not a \<open>Payload\<close>. An \<open>addPayload\<close> that fails at a
  contained value has appended the contained slices before that value, and nothing else:
  it does not roll them back.
\<close>

theorem failed_append_state:
  "(addSlice v s = (Some e, s') \<longrightarrow> s' = s) \<and>
   (addPayload p s = (Some e', s'') \<longrightarrow>
      (case p of Payload vs \<Rightarrow> s'' = addSlice_seq (leading_slices vs) s | _ \<Rightarrow> s'' = s))"
proof (intro conjI impI)
  assume "addSlice v s = (Some e, s')"
  then show "s' = s" by (cases v) auto
next
  assume "addPayload p s = (Some e', s'')"
  then show "case p of Payload vs \<Rightarrow> s'' = addSlice_seq (leading_slices vs) s | _ \<Rightarrow> s'' = s"
    using addPayload_loop_fail by (cases p) auto
qed

theorem failed_append_state_witness:
  "addSlice Other new_StreamReader =
     (Some (TypeError ''First argument must be an Uint8Array''), new_StreamReader) \<and>
   addPayload (Payload [Uint8Array [1], Other, Uint8Array [2]]) new_StreamReader =
     (Some (TypeError ''First argument must be an Uint8Array''),
      \<lparr>fields_length = 1, fields_slices = [[1]]\<rparr>) \<and>
   \<lparr>fields_length = 1, fields_slices = [[1]]\<rparr> =
     addSlice_seq (leading_slices [Uint8Array [1], Other, Uint8Array [2]]) new_StreamReader"
proof -
  have a: "addSlice Other new_StreamReader =
     (Some (TypeError ''First argument must be an Uint8Array''), new_StreamReader)"
    by simp
  have b: "addPayload (Payload [Uint8Array [1], Other, Uint8Array [2]]) new_StreamReader =
     (Some (TypeError ''First argument must be an Uint8Array''),
      \<lparr>fields_length = 1, fields_slices = [[1]]\<rparr>)"
    by (simp add: new_StreamReader_def)
  from failed_append_state [of Other new_StreamReader
      "TypeError ''First argument must be an Uint8Array''" new_StreamReader
      "Payload [Uint8Array [1], Other, Uint8Array [2]]"
      "TypeError ''First argument must be an Uint8Array''"
      "\<lparr>fields_length = 1, fields_slices = [[1]]\<rparr>"] a b
  show ?thesis by simp
qed

text \<open>
  C8 as stated fails: \<open>addPayload\<close> of a payload holding a slice and then a value that is
  not a \<open>Uint8Array\<close> throws, and the reader has kept the slice.
\<close>

theorem failed_addPayload_counterexample:
  "addPayload (Payload [Uint8Array [1], Other]) new_StreamReader =
     (Some (TypeError ''First argument must be an Uint8Array''),
      \<lparr>fields_length = 1, fields_slices = [[1]]\<rparr>) \<and>
   \<lparr>fields_length = 1, fields_slices = [[1]]\<rparr> \<noteq> new_StreamReader"
  by (simp add: new_StreamReader_def)

section \<open>read\<close>

lemma slices_total_drop:
  "i < length S \<Longrightarrow>
     slices_total (drop i S) = int (length (S ! i)) + slices_total (drop (Suc i) S)"
  by (simp add: Cons_nth_drop_Suc [symmetric])

text \<open>When the offset is not below the total of the slices left, the first loop ends
  with \<open>beginOffset \<le> offset\<close>.\<close>

lemma begin_loop_exhausted:
  "bo + slices_total (drop i S) \<le> off \<Longrightarrow> snd (begin_loop S off i bo) \<le> off"
proof (induction S off i bo rule: begin_loop.induct)
  case (1 S off i bo)
  show ?case
  proof (cases "i < length S")
    case True
    from "1.prems" True have step: "bo + int (length (S ! i)) \<le> off"
      and rest: "bo + int (length (S ! i)) + slices_total (drop (i + 1) S) \<le> off"
      by (simp_all add: slices_total_drop) (simp add: slices_total_def)
    from "1.IH" [OF True refl step rest] True step show ?thesis
      by (subst begin_loop.simps) (simp add: Let_def)
  next
    case False
    with "1.prems" show ?thesis by (subst begin_loop.simps) simp
  qed
qed

text \<open>
  C6. For every stream and every integer length, \<open>read(length, offset)\<close> with
  \<open>offset \<ge> totalLength\<close> returns \<open>null\<close>: no bytes and no exception. On an empty stream
  that is every offset from 0 on.
\<close>

theorem read_past_end_is_null:
  assumes "slices_total (fields_slices s) \<le> offset"
  shows "read s (Num len) (Num offset) = Inr None"
proof -
  obtain b bo where B: "begin_loop (fields_slices s) offset 0 0 = (b, bo)"
    by (cases "begin_loop (fields_slices s) offset 0 0")
  with begin_loop_exhausted [of 0 0 "fields_slices s" offset] assms have "bo \<le> offset"
    by simp
  with B show ?thesis by (simp add: read_def read_slices_def)
qed

theorem read_past_end_is_null_witness:
  "slices_total (fields_slices new_StreamReader) \<le> 0 \<and>
   read new_StreamReader (Num 1) (Num 0) = Inr None \<and>
   slices_total (fields_slices (stream_of [[0x41, 0x42], [0x43]])) \<le> 3 \<and>
   read (stream_of [[0x41, 0x42], [0x43]]) (Num 2) (Num 3) = Inr None"
proof -
  have a: "slices_total (fields_slices new_StreamReader) \<le> 0"
    by (simp add: new_StreamReader_def)
  have b: "slices_total (fields_slices (stream_of [[0x41, 0x42], [0x43]])) \<le> 3"
    by simp
  from read_past_end_is_null [OF a, of 1] read_past_end_is_null [OF b, of 2] a b
  show ?thesis by simp
qed

text \<open>
  Where the requested range lies inside one slice, \<open>read\<close> returns its bytes: the slice
  \<open>b\<close> after the slices \<open>pre\<close> holds the logical positions from \<open>slices_total pre\<close> on.
\<close>

lemma slices_total_nonneg: "0 \<le> slices_total S"
  by (simp add: slices_total_def)

lemma slices_total_take_Suc:
  "i < length S \<Longrightarrow> slices_total (take (Suc i) S) = slices_total (take i S) + int (length (S ! i))"
  by (simp add: take_Suc_conv_app_nth)

lemma slices_total_take_le: "slices_total (take i S) \<le> slices_total S"
proof -
  have "slices_total S = slices_total (take i S) + slices_total (drop i S)"
    by (metis append_take_drop_id slices_total_simps(3))
  with slices_total_nonneg [of "drop i S"] show ?thesis by simp
qed

lemma length_concat_total: "int (length (concat S)) = slices_total S"
  by (induction S) simp_all

lemma begin_loop_locates:
  assumes "slices_total pre \<le> off" and "off < slices_total pre + int (length b)"
  shows "i \<le> length pre \<Longrightarrow> bo = slices_total (take i pre) \<Longrightarrow>
         begin_loop (pre @ b # post) off i bo = (length pre, slices_total pre + int (length b))"
proof (induction "length pre - i" arbitrary: i bo)
  case 0
  then have i: "i = length pre" by simp
  with "0.prems" assms show ?case
    by (subst begin_loop.simps) (simp add: Let_def)
next
  case (Suc n)
  then have lt: "i < length pre" by simp
  have bo': "bo + int (length (pre ! i)) = slices_total (take (Suc i) pre)"
    using Suc.prems lt by (simp add: slices_total_take_Suc)
  with slices_total_take_le [of "Suc i" pre] assms have cont: "bo + int (length (pre ! i)) \<le> off"
    by simp
  have "begin_loop (pre @ b # post) off (Suc i) (bo + int (length (pre ! i))) =
        (length pre, slices_total pre + int (length b))"
    using Suc.hyps(1) [of "Suc i" "bo + int (length (pre ! i))"] Suc.hyps(2) lt bo' by simp
  with lt cont show ?case
    by (subst begin_loop.simps) (simp add: Let_def nth_append)
qed

lemma read_within_one_slice:
  assumes "slices_total pre \<le> off" and "off < slices_total pre + int (length b)"
    and "0 \<le> len" and "off + len \<le> slices_total pre + int (length b)"
  shows "read_slices (pre @ b # post) len off =
           Inr (spec_read (concat (pre @ b # post)) (nat len) (nat off))"
proof -
  let ?S = "pre @ b # post"
  let ?k = "nat (off - slices_total pre)"
  have B: "begin_loop ?S off 0 0 = (length pre, slices_total pre + int (length b))"
    using begin_loop_locates [OF assms(1,2), of 0 0 post] by simp
  have E: "end_loop ?S (off + len) (length pre) (slices_total pre) =
             (length pre, slices_total pre + int (length b))"
    using assms by (subst end_loop.simps) (simp add: Let_def)
  have len_le: "len \<le> int (length b)" using assms by simp
  have r: "read_slices ?S len off = Inr (Some (slice2 b (off - slices_total pre) (off - slices_total pre + len)))"
    using B E assms len_le by (simp add: read_slices_def Let_def min_def)
  have s: "slice2 b (off - slices_total pre) (off - slices_total pre + len) = take (nat len) (drop ?k b)"
    using assms by (simp add: slice2_def relative_index_def Let_def min_def nat_diff_distrib nat_add_distrib)
  have p: "length (concat pre) \<le> nat off" "nat off - length (concat pre) = ?k"
    using assms length_concat_total [of pre] slices_total_nonneg [of pre] by linarith+
  have tk: "take (nat len) (drop (nat off) (concat ?S)) = take (nat len) (drop ?k b)"
  proof -
    have "drop (nat off) (concat ?S) = drop ?k (b @ concat post)"
      using p by simp
    also have "take (nat len) \<dots> = take (nat len) (drop ?k b)"
      using assms by simp
    finally show ?thesis .
  qed
  have ne: "\<not> length (concat ?S) \<le> nat off"
    using assms length_concat_total [of pre] slices_total_nonneg [of pre] by simp
  from r s tk ne show ?thesis by (simp add: spec_read_def)
qed

text \<open>The scenarios 1, 2, 3 and 5 of the specification's testable properties.\<close>

lemma specified_scenarios:
  "read (stream_of [[0x41, 0x42], [0x43]]) (Num 3) (Num 0) = Inr (Some [0x41, 0x42, 0x43]) \<and>
   read (stream_of [[0x41, 0x42], [0x43]]) (Num 2) (Num 1) = Inr (Some [0x42, 0x43]) \<and>
   read (stream_of [[0x41, 0x42, 0x43]]) (Num 5) (Num 0) = Inr (Some [0x41, 0x42, 0x43]) \<and>
   read new_StreamReader (Num 1) (Num 0) = Inr None \<and>
   search (stream_of [[0x41, 0x42]]) (Uint8Array [0x99]) (Num 0) = Inr (- 1)"
  by code_simp

text \<open>
  C1. \<open>read\<close> does not return the bytes of the requested range when the range starts in
  one slice and ends inside a later one: the copy loop writes every slice up to the last
  one whole, and the last one does not fit the buffer. With the slices \<open>[0x41, 0x42]\<close> and
  \<open>[0x43, 0x44, 0x45]\<close>, \<open>read(2, 1)\<close> throws where the range holds \<open>[0x42, 0x43]\<close>. A
  range that runs past the end of the stream is not truncated either when it does not
  start at the first byte of a slice, since the buffer is sized from the start of that
  slice and the loop runs on to \<open>slices[slices.length]\<close>: with \<open>[0x41, 0x42]\<close> and
  \<open>[0x43]\<close>, and with the one slice \<open>[0x41, 0x42, 0x43]\<close>, \<open>read(5, 1)\<close> throws where the two
  bytes left are \<open>[0x42, 0x43]\<close>.
\<close>

theorem read_across_slices_throws:
  "read (stream_of [[0x41, 0x42], [0x43, 0x44, 0x45]]) (Num 2) (Num 1) = Inl Engine_RangeError \<and>
   spec_read (concat [[0x41, 0x42], [0x43, 0x44, 0x45]]) 2 1 = Some [0x42, 0x43] \<and>
   read (stream_of [[0x41, 0x42], [0x43]]) (Num 5) (Num 1) = Inl Engine_TypeError \<and>
   spec_read (concat [[0x41, 0x42], [0x43]]) 5 1 = Some [0x42, 0x43] \<and>
   read (stream_of [[0x41, 0x42, 0x43]]) (Num 5) (Num 1) = Inl Engine_TypeError \<and>
   spec_read (concat [[0x41, 0x42, 0x43]]) 5 1 = Some [0x42, 0x43]"
  by code_simp

section \<open>search\<close>

text \<open>
  C2. \<open>search\<close> does not return the end of the first occurrence. The confirmation compares
  \<open>window[i]\<close> with \<open>slice[i]\<close> for the slice index \<open>i\<close>, never the window with the pattern,
  \<open>front\<close> stays at the first slice searched, and a candidate is only looked for where the
  whole pattern fits into one slice. So an occurrence is missed (\<open>[0x42]\<close> in the one slice
  \<open>[0x41, 0x42]\<close>), a position that is no occurrence is reported (\<open>[0x41, 0x42]\<close> in
  \<open>[0x41, 0x41, 0x42]\<close>: 2 for 3), and an occurrence across two slices is missed.
\<close>

theorem search_misses_first_occurrence:
  "search (stream_of [[0x41, 0x42]]) (Uint8Array [0x42]) (Num 0) = Inr (- 1) \<and>
   spec_search (concat [[0x41, 0x42]]) [0x42] 0 = 2 \<and>
   search (stream_of [[0x41, 0x41, 0x42]]) (Uint8Array [0x41, 0x42]) (Num 0) = Inr 2 \<and>
   spec_search (concat [[0x41, 0x41, 0x42]]) [0x41, 0x42] 0 = 3 \<and>
   search (stream_of [[0x41], [0x42, 0x43]]) (Uint8Array [0x41, 0x42]) (Num 0) = Inr (- 1) \<and>
   spec_search (concat [[0x41], [0x42, 0x43]]) [0x41, 0x42] 0 = 2"
  by code_simp

text \<open>
  C3. \<open>search\<close> does not find an occurrence whose bytes lie in two slices. In the stream
  of the slices \<open>[0x61, 0x62]\<close> and \<open>[0x63, 0x64]\<close> the pattern \<open>[0x62, 0x63]\<close> occurs at
  logical position 1, from the last byte of the first slice to the first byte of the
  second, and \<open>search([0x62, 0x63], 0)\<close> returns \<open>-1\<close>: the loop over \<open>index\<close> stops at
  \<open>slice.length - pattern.length\<close> in each slice, so the start of that occurrence is never
  tried, although a candidate would be confirmed through \<open>read\<close>, which spans slices.
\<close>

theorem search_misses_straddling_occurrence:
  "search (stream_of [[0x61, 0x62], [0x63, 0x64]]) (Uint8Array [0x62, 0x63]) (Num 0) = Inr (- 1) \<and>
   occurs_at (concat (fields_slices (stream_of [[0x61, 0x62], [0x63, 0x64]]))) [0x62, 0x63] 1 \<and>
   spec_search (concat (fields_slices (stream_of [[0x61, 0x62], [0x63, 0x64]]))) [0x62, 0x63] 0 \<noteq> - 1"
  by code_simp

text \<open>
  C4, as amended. For every stream and every integer offset, \<open>search\<close> with an empty
  pattern returns the literal 0.
\<close>

theorem search_empty_pattern:
  "search s (Uint8Array []) (Num offset) = Inr 0"
  by (simp add: search_def)

text \<open>C4 as stated fails: with offset 2 the result is 0, not 2.\<close>

theorem search_empty_pattern_counterexample:
  "search (stream_of [[0x41, 0x42, 0x43]]) (Uint8Array []) (Num 2) = Inr 0 \<and>
   search (stream_of [[0x41, 0x42, 0x43]]) (Uint8Array []) (Num 2) \<noteq> Inr 2"
  by (simp add: search_def)

section \<open>The argument checks of read and search\<close>

text \<open>Past its argument checks, \<open>read\<close> throws no \<open>TypeError\<close> of its own, and neither do
  the loops of \<open>search\<close>.\<close>

lemma copy_loop_no_TypeError:
  "copy_loop S off b bo e i data dst \<noteq> Inl (TypeError m)"
proof (induction S off b bo e i data dst rule: copy_loop.induct)
  case (1 S off b bo e i data dst)
  show ?case
    using "1.IH"
    by (subst copy_loop.simps)
       (auto simp: Let_def typed_array_set_def split: sum.splits if_splits)
qed

lemma read_slices_no_TypeError:
  "read_slices S len off \<noteq> Inl (TypeError m)"
  using copy_loop_no_TypeError
  by (auto simp: read_slices_def Let_def split: prod.splits sum.splits)

lemma index_loop_no_TypeError:
  "index_loop s pattern front slc i index \<noteq> Inl (TypeError m)"
proof (induction s pattern front slc i index rule: index_loop.induct)
  case (1 s pattern front slc i index)
  show ?case
    using "1.IH" read_slices_no_TypeError
    by (subst index_loop.simps)
       (auto simp: read_def split: sum.splits option.splits if_splits)
qed

lemma slice_loop_no_TypeError:
  "slice_loop s pattern offset b bo front i \<noteq> Inl (TypeError m)"
proof (induction s pattern offset b bo front i rule: slice_loop.induct)
  case (1 s pattern offset b bo front i)
  let ?index = "if i = b then offset - bo else 0"
  show ?case
  proof (cases "i < length (fields_slices s)")
    case True
    show ?thesis
    proof (cases "index_loop s pattern front (fields_slices s ! i) i ?index")
      case (Inl e)
      with True index_loop_no_TypeError [of s pattern front "fields_slices s ! i" i ?index m]
      show ?thesis by (subst slice_loop.simps) (simp add: Let_def)
    next
      case (Inr r)
      show ?thesis
      proof (cases r)
        case None
        with "1.IH" [OF True refl refl] Inr True show ?thesis
          by (subst slice_loop.simps) (simp add: Let_def)
      next
        case (Some p)
        with Inr True show ?thesis by (subst slice_loop.simps) (simp add: Let_def)
      qed
    qed
  next
    case False
    then show ?thesis by (subst slice_loop.simps) simp
  qed
qed

text \<open>
  C9, as amended. \<open>read\<close> throws its argument error if and only if \<open>length\<close> or \<open>offset\<close>
  (0 when left out) is not an integer, and \<open>search\<close> with a \<open>Uint8Array\<close> pattern if and only
  if \<open>offset\<close> is not an integer. A negative integer passes the check.
\<close>

theorem argument_errors:
  "(read s len offset = Inl (TypeError ''First argument must be an integer'')
      \<longleftrightarrow> \<not> isInteger len) \<and>
   (read s len offset = Inl (TypeError ''Second argument must be an integer'')
      \<longleftrightarrow> isInteger len \<and> \<not> isInteger (default_arg offset (Num 0))) \<and>
   (search s (Uint8Array pattern) offset = Inl (TypeError ''Second argument must be an integer'')
      \<longleftrightarrow> \<not> isInteger (default_arg offset (Num 0)))"
proof (intro conjI)
  show "(read s len offset = Inl (TypeError ''First argument must be an integer''))
      \<longleftrightarrow> \<not> isInteger len"
    using read_slices_no_TypeError
    by (cases len; cases "default_arg offset (Num 0)") (auto simp: read_def)
  show "(read s len offset = Inl (TypeError ''Second argument must be an integer''))
      \<longleftrightarrow> isInteger len \<and> \<not> isInteger (default_arg offset (Num 0))"
    using read_slices_no_TypeError
    by (cases len; cases "default_arg offset (Num 0)") (auto simp: read_def)
  show "(search s (Uint8Array pattern) offset = Inl (TypeError ''Second argument must be an integer''))
      \<longleftrightarrow> \<not> isInteger (default_arg offset (Num 0))"
    using slice_loop_no_TypeError
    by (cases "default_arg offset (Num 0)")
       (auto simp: search_def Let_def split: prod.splits)
qed

theorem argument_errors_witness:
  "read (stream_of [[0x41, 0x42]]) Other Undefined =
     Inl (TypeError ''First argument must be an integer'') \<and>
   read (stream_of [[0x41, 0x42]]) (Num 1) Other =
     Inl (TypeError ''Second argument must be an integer'') \<and>
   search (stream_of [[0x41, 0x42]]) (Uint8Array [0x41]) Other =
     Inl (TypeError ''Second argument must be an integer'') \<and>
   read (stream_of [[0x41, 0x42]]) (Num (- 1)) (Num (- 1)) \<noteq>
     Inl (TypeError ''First argument must be an integer'') \<and>
   read (stream_of [[0x41, 0x42]]) (Num (- 1)) (Num (- 1)) \<noteq>
     Inl (TypeError ''Second argument must be an integer'') \<and>
   search (stream_of [[0x41, 0x42]]) (Uint8Array [0x41]) (Num (- 1)) \<noteq>
     Inl (TypeError ''Second argument must be an integer'')"
  using argument_errors [of "stream_of [[0x41, 0x42]]" Other Undefined "[0x41]"]
    argument_errors [of "stream_of [[0x41, 0x42]]" "Num 1" Other "[0x41]"]
    argument_errors [of "stream_of [[0x41, 0x42]]" "Num (- 1)" "Num (- 1)" "[0x41]"]
  by simp

text \<open>
  C9 as stated fails: a negative length and a negative offset are processed. \<open>read(-1, 0)\<close>
  returns the first slice without its last byte, and \<open>search\<close> from offset \<open>-1\<close> returns a
  position.
\<close>

theorem negative_arguments_counterexample:
  "read (stream_of [[0x41, 0x42]]) (Num (- 1)) (Num 0) = Inr (Some [0x41]) \<and>
   search (stream_of [[0x41, 0x42]]) (Uint8Array [0x41]) (Num (- 1)) = Inr 1"
  by code_simp

section \<open>A zero-length slice among the slices\<close>

text \<open>
  Each loop of \<open>read\<close> steps over an empty slice without a change of its variables, so
  the loops on a slice list with an empty slice inserted at index \<open>length xs\<close> run as on
  the list without it, with the indices from there on moved by one.
\<close>

lemma nth_inserted:
  "i < length xs \<Longrightarrow> (xs @ [] # ys) ! i = (xs @ ys) ! i"
  "(xs @ [] # ys) ! length xs = []"
  "length xs \<le> i \<Longrightarrow> (xs @ [] # ys) ! Suc i = (xs @ ys) ! i"
  by (simp_all add: nth_append Suc_diff_le)

lemma nth_inserted_shift:
  "(xs @ [] # ys) ! shift_index (length xs) i = (xs @ ys) ! i"
  by (simp add: shift_index_def nth_inserted)

lemma begin_loop_fst_ge: "i \<le> fst (begin_loop S off i bo)"
proof (induction S off i bo rule: begin_loop.induct)
  case (1 S off i bo)
  show ?case
  proof (cases "i < length S \<and> bo + int (length (S ! i)) \<le> off")
    case True
    with "1" [OF _ refl] have "i + 1 \<le> fst (begin_loop S off (i + 1) (bo + int (length (S ! i))))"
      by simp
    with True show ?thesis by (subst begin_loop.simps) (simp add: Let_def)
  next
    case False
    then show ?thesis by (subst begin_loop.simps) (auto simp: Let_def)
  qed
qed

lemma end_loop_fst_ge: "i \<le> fst (end_loop S lim i eo)"
proof (induction S lim i eo rule: end_loop.induct)
  case (1 S lim i eo)
  show ?case
  proof (cases "i < length S \<and> eo + int (length (S ! i)) < lim")
    case True
    with "1" [OF _ refl] have "i + 1 \<le> fst (end_loop S lim (i + 1) (eo + int (length (S ! i))))"
      by simp
    with True show ?thesis by (subst end_loop.simps) (simp add: Let_def)
  next
    case False
    then show ?thesis by (subst end_loop.simps) (auto simp: Let_def)
  qed
qed

lemma begin_loop_after:
  "length xs \<le> i \<Longrightarrow>
   begin_loop (xs @ [] # ys) off (Suc i) bo =
     (case begin_loop (xs @ ys) off i bo of (k, r) \<Rightarrow> (Suc k, r))"
proof (induction S\<equiv>"xs @ ys" off i bo rule: begin_loop.induct)
  case (1 off i bo)
  show ?case
  proof (cases "i < length (xs @ ys) \<and> bo + int (length ((xs @ ys) ! i)) \<le> off")
    case True
    with "1.hyps" [OF _ refl] "1.prems"
    have "begin_loop (xs @ [] # ys) off (Suc (i + 1)) (bo + int (length ((xs @ ys) ! i))) =
      (case begin_loop (xs @ ys) off (i + 1) (bo + int (length ((xs @ ys) ! i))) of (k, r) \<Rightarrow> (Suc k, r))"
      by simp
    with True "1.prems" show ?thesis
      by (subst begin_loop.simps, subst (2) begin_loop.simps) (simp add: Let_def nth_inserted)
  next
    case False
    with "1.prems" show ?thesis
      by (subst begin_loop.simps, subst (2) begin_loop.simps) (auto simp: Let_def nth_inserted)
  qed
qed


lemma end_loop_after:
  "length xs \<le> i \<Longrightarrow>
   end_loop (xs @ [] # ys) lim (Suc i) eo =
     (case end_loop (xs @ ys) lim i eo of (k, r) \<Rightarrow> (Suc k, r))"
proof (induction S\<equiv>"xs @ ys" lim i eo rule: end_loop.induct)
  case (1 lim i eo)
  show ?case
  proof (cases "i < length (xs @ ys) \<and> eo + int (length ((xs @ ys) ! i)) < lim")
    case True
    with "1.hyps" [OF _ refl] "1.prems"
    have "end_loop (xs @ [] # ys) lim (Suc (i + 1)) (eo + int (length ((xs @ ys) ! i))) =
      (case end_loop (xs @ ys) lim (i + 1) (eo + int (length ((xs @ ys) ! i))) of (k, r) \<Rightarrow> (Suc k, r))"
      by simp
    with True "1.prems" show ?thesis
      by (subst end_loop.simps, subst (2) end_loop.simps) (simp add: Let_def nth_inserted)
  next
    case False
    with "1.prems" show ?thesis
      by (subst end_loop.simps, subst (2) end_loop.simps) (auto simp: Let_def nth_inserted)
  qed
qed

lemma begin_loop_before:
  "i \<le> length xs \<Longrightarrow> bo \<le> off \<Longrightarrow>
   begin_loop (xs @ [] # ys) off i bo =
     (case begin_loop (xs @ ys) off i bo of (k, r) \<Rightarrow> (shift_index (length xs) k, r))"
proof (induction S\<equiv>"xs @ ys" off i bo rule: begin_loop.induct)
  case (1 off i bo)
  show ?case
  proof (cases "i = length xs")
    case True
    have "begin_loop (xs @ [] # ys) off i bo = begin_loop (xs @ [] # ys) off (Suc i) bo"
      using True "1.prems" by (subst begin_loop.simps) (simp add: Let_def nth_inserted)
    also have "\<dots> = (case begin_loop (xs @ ys) off i bo of (k, r) \<Rightarrow> (Suc k, r))"
      using True by (simp add: begin_loop_after)
    also have "\<dots> = (case begin_loop (xs @ ys) off i bo of (k, r) \<Rightarrow> (shift_index (length xs) k, r))"
      using begin_loop_fst_ge [of i "xs @ ys" off bo] True
      by (auto simp: shift_index_def split: prod.splits)
    finally show ?thesis .
  next
    case False
    with "1.prems" have lt: "i < length xs" by simp
    show ?thesis
    proof (cases "bo + int (length ((xs @ ys) ! i)) \<le> off")
      case True
      with "1.hyps" [OF _ refl] lt
      have "begin_loop (xs @ [] # ys) off (i + 1) (bo + int (length ((xs @ ys) ! i))) =
        (case begin_loop (xs @ ys) off (i + 1) (bo + int (length ((xs @ ys) ! i))) of
           (k, r) \<Rightarrow> (shift_index (length xs) k, r))"
        by simp
      with True lt show ?thesis
        by (subst begin_loop.simps, subst (2) begin_loop.simps) (simp add: Let_def nth_inserted)
    next
      case False
      with lt show ?thesis
        by (subst begin_loop.simps, subst (2) begin_loop.simps)
           (simp add: Let_def nth_inserted shift_index_def)
    qed
  qed
qed

lemma end_loop_before:
  "i \<le> length xs \<Longrightarrow> (i = length xs \<longrightarrow> eo < lim) \<Longrightarrow>
   end_loop (xs @ [] # ys) lim i eo =
     (case end_loop (xs @ ys) lim i eo of (k, r) \<Rightarrow> (shift_index (length xs) k, r))"
proof (induction S\<equiv>"xs @ ys" lim i eo rule: end_loop.induct)
  case (1 lim i eo)
  show ?case
  proof (cases "i = length xs")
    case True
    have "end_loop (xs @ [] # ys) lim i eo = end_loop (xs @ [] # ys) lim (Suc i) eo"
      using True "1.prems" by (subst end_loop.simps) (simp add: Let_def nth_inserted)
    also have "\<dots> = (case end_loop (xs @ ys) lim i eo of (k, r) \<Rightarrow> (Suc k, r))"
      using True by (simp add: end_loop_after)
    also have "\<dots> = (case end_loop (xs @ ys) lim i eo of (k, r) \<Rightarrow> (shift_index (length xs) k, r))"
      using end_loop_fst_ge [of i "xs @ ys" lim eo] True
      by (auto simp: shift_index_def split: prod.splits)
    finally show ?thesis .
  next
    case False
    with "1.prems" have lt: "i < length xs" by simp
    show ?thesis
    proof (cases "eo + int (length ((xs @ ys) ! i)) < lim")
      case True
      with "1.hyps" [OF _ refl] lt
      have "end_loop (xs @ [] # ys) lim (i + 1) (eo + int (length ((xs @ ys) ! i))) =
        (case end_loop (xs @ ys) lim (i + 1) (eo + int (length ((xs @ ys) ! i))) of
           (k, r) \<Rightarrow> (shift_index (length xs) k, r))"
        by simp
      with True lt show ?thesis
        by (subst end_loop.simps, subst (2) end_loop.simps) (simp add: Let_def nth_inserted)
    next
      case False
      with lt show ?thesis
        by (subst end_loop.simps, subst (2) end_loop.simps)
           (simp add: Let_def nth_inserted shift_index_def)
    qed
  qed
qed

lemma typed_array_set_Inr:
  "typed_array_set data src dst = Inr data' \<Longrightarrow>
     0 \<le> dst \<and> dst + int (length src) \<le> int (length data) \<and> length data' = length data"
  by (auto simp: typed_array_set_def split: if_splits)

lemma typed_array_set_empty:
  "0 \<le> dst \<Longrightarrow> dst \<le> int (length data) \<Longrightarrow> typed_array_set data [] dst = Inr data"
  by (simp add: typed_array_set_def)

lemma copy_loop_after:
  "length xs \<le> i \<Longrightarrow> (b' = Suc b \<and> length xs \<le> b \<or> b' = b \<and> b < length xs) \<Longrightarrow>
   copy_loop (xs @ [] # ys) off b' bo (Suc e) (Suc i) data dst =
   copy_loop (xs @ ys) off b bo e i data dst"
proof (induction S\<equiv>"xs @ ys" off b bo e i data dst rule: copy_loop.induct)
  case (1 off b bo e i data dst)
  let ?slc = "if i = b then slice1 ((xs @ ys) ! i) (off - bo) else (xs @ ys) ! i"
  from "1.prems" have same: "(Suc i = b') = (i = b)" by auto
  show ?case
  proof (cases "i \<le> e \<and> i < length (xs @ ys)")
    case True
    show ?thesis
    proof (cases "typed_array_set data ?slc dst")
      case (Inl err)
      with True "1.prems" same show ?thesis
        by (subst copy_loop.simps, subst (2) copy_loop.simps) (simp add: Let_def nth_inserted)
    next
      case (Inr data')
      with "1.hyps" [OF _ _ refl refl Inr] True "1.prems"
      have "copy_loop (xs @ [] # ys) off b' bo (Suc e) (Suc (i + 1)) data' (dst + int (length ?slc)) =
            copy_loop (xs @ ys) off b bo e (i + 1) data' (dst + int (length ?slc))"
        by simp
      with Inr True "1.prems" same show ?thesis
        by (subst copy_loop.simps, subst (2) copy_loop.simps) (simp add: Let_def nth_inserted)
    qed
  next
    case False
    with "1.prems" same show ?thesis
      by (subst copy_loop.simps, subst (2) copy_loop.simps) (auto simp: Let_def nth_inserted)
  qed
qed


lemma copy_loop_before:
  "i \<le> length xs \<Longrightarrow> b < length xs \<Longrightarrow>
   (i = length xs \<longrightarrow> 0 \<le> dst \<and> dst \<le> int (length data)) \<Longrightarrow>
   copy_loop (xs @ [] # ys) off b bo (shift_index (length xs) e) i data dst =
   copy_loop (xs @ ys) off b bo e i data dst"
proof (induction S\<equiv>"xs @ ys" off b bo e i data dst rule: copy_loop.induct)
  case (1 off b bo e i data dst)
  let ?slc = "if i = b then slice1 ((xs @ ys) ! i) (off - bo) else (xs @ ys) ! i"
  show ?case
  proof (cases "i = length xs")
    case True
    show ?thesis
    proof (cases "length xs \<le> e")
      case le: True
      then have sh: "shift_index (length xs) e = Suc e" by (simp add: shift_index_def)
      have "copy_loop (xs @ [] # ys) off b bo (Suc e) i data dst =
            copy_loop (xs @ [] # ys) off b bo (Suc e) (Suc i) data dst"
        using True le "1.prems"
        by (subst copy_loop.simps) (simp add: Let_def nth_inserted typed_array_set_empty)
      also have "\<dots> = copy_loop (xs @ ys) off b bo e i data dst"
        using True "1.prems" by (simp add: copy_loop_after)
      finally show ?thesis by (simp add: sh)
    next
      case False
      then have sh: "shift_index (length xs) e = e" by (simp add: shift_index_def)
      from False True show ?thesis
        by (subst copy_loop.simps, subst (2) copy_loop.simps) (simp add: sh)
    qed
  next
    case False
    with "1.prems" have lt: "i < length xs" by simp
    then have le_iff: "(i \<le> shift_index (length xs) e) = (i \<le> e)"
      by (auto simp: shift_index_def)
    show ?thesis
    proof (cases "i \<le> e")
      case ie: True
      show ?thesis
      proof (cases "typed_array_set data ?slc dst")
        case (Inl err)
        with ie lt le_iff show ?thesis
          by (subst copy_loop.simps, subst (2) copy_loop.simps) (simp add: Let_def nth_inserted)
      next
        case (Inr data')
        from typed_array_set_Inr [OF Inr]
        have inv: "0 \<le> dst + int (length ?slc) \<and> dst + int (length ?slc) \<le> int (length data')"
          by simp
        have lt': "i < length (xs @ ys)" using lt by simp
        from "1.hyps" [OF ie lt' refl refl Inr] lt "1.prems" inv
        have "copy_loop (xs @ [] # ys) off b bo (shift_index (length xs) e) (i + 1) data'
                (dst + int (length ?slc)) =
              copy_loop (xs @ ys) off b bo e (i + 1) data' (dst + int (length ?slc))"
          by simp
        with Inr ie lt le_iff show ?thesis
          by (subst copy_loop.simps, subst (2) copy_loop.simps) (simp add: Let_def nth_inserted)
      qed
    next
      case False
      with le_iff show ?thesis
        by (subst copy_loop.simps, subst (2) copy_loop.simps) simp
    qed
  qed
qed

lemma read_slices_inserted_empty:
  assumes off: "0 \<le> offset"
  shows "read_slices (xs @ [] # ys) len offset = read_slices (xs @ ys) len offset"
proof -
  let ?n = "length xs"
  obtain b bo where B: "begin_loop (xs @ ys) offset 0 0 = (b, bo)"
    by (cases "begin_loop (xs @ ys) offset 0 0")
  then have B': "begin_loop (xs @ [] # ys) offset 0 0 = (shift_index ?n b, bo)"
    using begin_loop_before [of 0 xs 0 offset ys] off by simp
  show ?thesis
  proof (cases "bo \<le> offset \<or> \<not> b < length (xs @ ys)")
    case True
    then have "bo \<le> offset \<or> \<not> shift_index ?n b < length (xs @ [] # ys)"
      by (auto simp: shift_index_def)
    with True B B' show ?thesis by (auto simp: read_slices_def)
  next
    case False
    then have in_range: "shift_index ?n b < length (xs @ [] # ys)"
      by (auto simp: shift_index_def)
    let ?bo = "bo - int (length ((xs @ ys) ! b))"
    obtain e eo where E: "end_loop (xs @ ys) (offset + len) b ?bo = (e, eo)"
      by (cases "end_loop (xs @ ys) (offset + len) b ?bo")
    have be: "b \<le> e" using end_loop_fst_ge [of b "xs @ ys" "offset + len" ?bo] E by simp
    have E': "end_loop (xs @ [] # ys) (offset + len) (shift_index ?n b) ?bo = (shift_index ?n e, eo)"
    proof (cases "b < ?n")
      case True
      then show ?thesis using end_loop_before [of b xs ?bo "offset + len" ys] E
        by (simp add: shift_index_def)
    next
      case False
      then show ?thesis using end_loop_after [of xs b ys "offset + len" ?bo] E be
        by (simp add: shift_index_def)
    qed
    have C: "copy_loop (xs @ [] # ys) offset (shift_index ?n b) ?bo (shift_index ?n e)
               (shift_index ?n b) data 0 =
             copy_loop (xs @ ys) offset b ?bo e b data 0" for data
    proof (cases "b < ?n")
      case True
      then show ?thesis using copy_loop_before [of b xs b 0 data ys offset ?bo e]
        by (simp add: shift_index_def)
    next
      case False
      then show ?thesis using copy_loop_after [of xs b "Suc b" b ys offset ?bo e data 0] be
        by (simp add: shift_index_def)
    qed
    from False in_range B B' E E' show ?thesis
      by (simp add: read_slices_def Let_def nth_inserted_shift C)
  qed
qed

text \<open>
  C10. \<open>addSlice\<close> of a zero-length slice succeeds and leaves \<open>length\<close> as it was; and for
  non-negative \<open>length\<close> and \<open>offset\<close> with \<open>offset + length \<le> totalLength\<close>, \<open>read\<close> on the
  stream with a zero-length slice appended before, between or after the other slices
  returns what it returns without that slice. (Of the three bounds, the equality of the
  two reads rests on \<open>0 \<le> offset\<close> alone, as \<open>read_slices_inserted_empty\<close> shows.)
\<close>

theorem empty_slice_invisible:
  assumes "0 \<le> offset" and "0 \<le> len" and "offset + len \<le> slices_total (xs @ ys)"
  shows "fst (addSlice (Uint8Array []) s) = None \<and>
         get_length (snd (addSlice (Uint8Array []) s)) = get_length s \<and>
         read (stream_of (xs @ [] # ys)) (Num len) (Num offset) =
           read (stream_of (xs @ ys)) (Num len) (Num offset)"
  using read_slices_inserted_empty [OF assms(1)] by (simp add: get_length_def read_def)

theorem empty_slice_invisible_witness:
  "(0::int) \<le> 1 \<and> (0::int) \<le> 2 \<and> 1 + 2 \<le> slices_total ([[0x41, 0x42]] @ [[0x43]]) \<and>
   read (stream_of ([[0x41, 0x42]] @ [] # [[0x43]])) (Num 2) (Num 1) =
     read (stream_of ([[0x41, 0x42]] @ [[0x43]])) (Num 2) (Num 1) \<and>
   read (stream_of ([[0x41, 0x42]] @ [[0x43]])) (Num 2) (Num 1) = Inr (Some [0x42, 0x43])"
proof -
  have h: "(1::int) + 2 \<le> slices_total ([[0x41, 0x42]] @ [[0x43]])" by simp
  have v: "read (stream_of ([[0x41, 0x42]] @ [[0x43]])) (Num 2) (Num 1) = Inr (Some [0x42, 0x43])"
    by code_simp
  from empty_slice_invisible [of 1 2 "[[0x41, 0x42]]" "[[0x43]]", OF _ _ h] h v
  show ?thesis by simp
qed

end
